theory Spec2Isabelle
  imports Main "HOL-Library.Multiset"
begin

section \<open>Text normalisation: \<open>remove_special_characters\<close>\<close>

text \<open>
  The notebook normalises every transcript with
  \<^verbatim>\<open>
  def remove_special_characters(batch):
      import re
      chars_to_ignore_regex = '[\,\?\.\!\-\;\:\"]'
      batch["text"] = re.sub(chars_to_ignore_regex, '', batch["text"]).lower()
      return batch
  \<close>
  A Python \<open>str\<close> is a sequence of code points. The model covers the code points
  U+0000 to U+00FF: a \<open>char\<close> is read as the code point of that number, and a
  \<open>string\<close> as the \<open>str\<close> of those code points. On this range \<open>str.lower\<close> acts on
  each character by itself.
\<close>

text \<open>
  The regular expression is one character class. Python keeps the backslash of
  \<open>\,\<close> \<open>\?\<close> \<open>\.\<close> \<open>\!\<close> \<open>\-\<close> \<open>\;\<close> \<open>\:\<close> in the string literal and the regular
  expression reads each as the escaped character; \<open>\"\<close> is the double quote
  (code point 0x22). The class therefore matches exactly these eight characters.
\<close>

definition chars_to_ignore :: "char list" where
  "chars_to_ignore =
     [CHR '','', CHR ''?'', CHR ''.'', CHR ''!'', CHR ''-'', CHR '';'', CHR '':'', CHR 0x22]"

text \<open>
  \<open>re.sub(cls, '', s)\<close> for a character class: scanning from the left, every
  character of the class is replaced by the empty string, every other character is
  copied.
\<close>

fun re_sub_class :: "char list \<Rightarrow> string \<Rightarrow> string" where
  "re_sub_class cls [] = []"
| "re_sub_class cls (c # cs) =
     (if c \<in> set cls then re_sub_class cls cs else c # re_sub_class cls cs)"

text \<open>
  The uppercase letters among the code points below 256 are \<open>A\<close> to \<open>Z\<close> (65 to 90)
  and the accented capitals 192 to 222 without the multiplication sign 215;
  \<open>str.lower\<close> maps each to the code point 32 above it and leaves every other code
  point of the range as it is.
\<close>

definition is_upper :: "char \<Rightarrow> bool" where
  "is_upper c =
     (let n = (of_char c :: nat)
      in (65 \<le> n \<and> n \<le> 90) \<or> (192 \<le> n \<and> n \<le> 214) \<or> (216 \<le> n \<and> n \<le> 222))"

definition lower_char :: "char \<Rightarrow> char" where
  "lower_char c = (if is_upper c then char_of (of_char c + (32 :: nat)) else c)"

definition lower :: "string \<Rightarrow> string" where
  "lower s = map lower_char s"

text \<open>
  A batch is a row of the dataset. Only its \<open>"text"\<close> column is read and written;
  the other columns (\<open>file\<close>, \<open>audio\<close>) are the extension part of the record and
  are returned untouched.
\<close>

record batch =
  batch_text :: string

definition remove_special_characters :: "'a batch_scheme \<Rightarrow> 'a batch_scheme" where
  "remove_special_characters b =
     b\<lparr>batch_text := lower (re_sub_class chars_to_ignore (batch_text b))\<rparr>"


section \<open>Vocabulary construction\<close>

text \<open>
  \<^verbatim>\<open>
  def extract_characters(batch):
      texts = " ".join(batch["text"])
      vocab = list(set(texts))
      return {"vocab": [vocab], "texts": [texts]}

  vocabs = dataset.map(extract_characters, batched=True, batch_size=-1,
                       keep_in_memory=True, remove_columns=dataset.column_names["train"])
  vocab_list = list(set(vocabs["train"]["vocab"][0]) | set(vocabs["test"]["vocab"][0]))
  vocab_dict = {v: k for k, v in enumerate(vocab_list)}
  vocab_dict["|"] = vocab_dict[" "]
  del vocab_dict[" "]
  vocab_dict["[UNK]"] = len(vocab_dict)
  vocab_dict["[PAD]"] = len(vocab_dict)
  \<close>
  The dataset has two partitions. With \<open>batched=True, batch_size=-1\<close> the function
  is called once per partition, on the whole \<open>"text"\<close> column of that partition (in
  the model also when the partition has no rows).
\<close>

record dataset =
  train :: "string list"
  test :: "string list"

text \<open>\<open>sep.join(xs)\<close>: the separator stands between consecutive elements only.\<close>

fun join :: "string \<Rightarrow> string list \<Rightarrow> string" where
  "join sep [] = []"
| "join sep [x] = x"
| "join sep (x # y # ys) = x @ sep @ join sep (y # ys)"

text \<open>
  \<open>list(set(texts))\<close> lists the distinct characters in an order Python does not
  specify. Its only reader turns the list back into a set, so the field \<open>vocab\<close>
  holds the set.
\<close>

record extracted =
  vocab :: "char set"
  texts :: string

definition extract_characters :: "string list \<Rightarrow> extracted" where
  "extract_characters batch_texts =
     (let joined = join '' '' batch_texts in \<lparr>vocab = set joined, texts = joined\<rparr>)"

definition vocab_set :: "dataset \<Rightarrow> char set" where
  "vocab_set ds =
     vocab (extract_characters (train ds)) \<union> vocab (extract_characters (test ds))"

text \<open>
  Errors are values. The only exception the cell can raise by itself is the
  \<open>KeyError\<close> of a dictionary lookup or deletion; it carries the missing key.
\<close>

datatype py_error = KeyError string

text \<open>
  A Python \<open>dict\<close> keeps its keys in insertion order: it is an association list
  with distinct keys. \<open>d[k] = v\<close> overwrites the value of a key that is present, in
  place, and appends a key that is absent; \<open>d[k]\<close> and \<open>del d[k]\<close> raise
  \<open>KeyError\<close> when the key is absent; \<open>len(d)\<close> is the number of entries.
\<close>

type_synonym py_dict = "(string \<times> nat) list"

fun setitem :: "py_dict \<Rightarrow> string \<Rightarrow> nat \<Rightarrow> py_dict" where
  "setitem [] k v = [(k, v)]"
| "setitem ((k', v') # d) k v =
     (if k' = k then (k, v) # d else (k', v') # setitem d k v)"

definition getitem :: "py_dict \<Rightarrow> string \<Rightarrow> py_error + nat" where
  "getitem d k = (case map_of d k of None \<Rightarrow> Inl (KeyError k) | Some v \<Rightarrow> Inr v)"

definition delitem :: "py_dict \<Rightarrow> string \<Rightarrow> py_error + py_dict" where
  "delitem d k =
     (if k \<in> set (map fst d) then Inr (filter (\<lambda>p. fst p \<noteq> k) d) else Inl (KeyError k))"

text \<open>
  The dictionary comprehension \<open>{v: k for k, v in enumerate(vocab_list)}\<close> stores
  the entries one after the other, each character as a one-character string.
\<close>

definition enumerate_dict :: "char list \<Rightarrow> py_dict" where
  "enumerate_dict vocab_list =
     fold (\<lambda>(k, v) d. setitem d [v] k) (List.enumerate 0 vocab_list) []"

text \<open>The four statements after the comprehension, for a given \<open>vocab_list\<close>.\<close>

definition vocab_dict :: "char list \<Rightarrow> py_error + py_dict" where
  "vocab_dict vocab_list =
     (let d0 = enumerate_dict vocab_list in
      case getitem d0 '' '' of
        Inl e \<Rightarrow> Inl e
      | Inr i \<Rightarrow>
          (case delitem (setitem d0 ''|'' i) '' '' of
             Inl e \<Rightarrow> Inl e
           | Inr d2 \<Rightarrow>
               (let d3 = setitem d2 ''[UNK]'' (length d2);
                    d4 = setitem d3 ''[PAD]'' (length d3)
                in Inr d4)))"

text \<open>
  \<open>vocab_list = list(set(...) | set(...))\<close> is some enumeration of the union without
  repetition; which one is left to the set implementation. The cell is therefore a
  relation between the dataset and its outcome: every duplicate-free list of the
  character set is a possible \<open>vocab_list\<close>.
\<close>

inductive build_vocabulary :: "dataset \<Rightarrow> py_error + py_dict \<Rightarrow> bool" where
  run: "distinct vocab_list \<Longrightarrow> set vocab_list = vocab_set ds \<Longrightarrow>
        build_vocabulary ds (vocab_dict vocab_list)"


section \<open>Properties of the normaliser\<close>

lemma re_sub_class_filter: "re_sub_class cls s = filter (\<lambda>c. c \<notin> set cls) s"
  by (induction s) auto






lemma normalised_text:
  "batch_text (remove_special_characters b) =
     map lower_char (filter (\<lambda>c. c \<notin> set chars_to_ignore) (batch_text b))"
  by (simp add: remove_special_characters_def lower_def re_sub_class_filter)









section \<open>Properties of the vocabulary construction\<close>

subsection \<open>Joined texts and the character set\<close>

lemma set_join:
  "set (join sep xs) = \<Union>(set ` set xs) \<union> (if 2 \<le> length xs then set sep else {})"
  by (induction sep xs rule: join.induct) auto

lemma vocab_set_eq:
  "vocab_set ds =
     \<Union>(set ` set (train ds)) \<union> (if 2 \<le> length (train ds) then {CHR '' ''} else {}) \<union>
     (\<Union>(set ` set (test ds)) \<union> (if 2 \<le> length (test ds) then {CHR '' ''} else {}))"
  by (simp add: vocab_set_def extract_characters_def Let_def set_join)

lemma finite_vocab_set: "finite (vocab_set ds)"
  by (simp add: vocab_set_def extract_characters_def Let_def)

lemma build_vocabulary_total: "\<exists>r. build_vocabulary ds r"
proof -
  obtain vl where "set vl = vocab_set ds" "distinct vl"
    using finite_distinct_list [OF finite_vocab_set] by blast
  then show ?thesis using build_vocabulary.run by blast
qed

subsection \<open>Dictionary operations\<close>

lemma setitem_append: "k \<notin> set (map fst d) \<Longrightarrow> setitem d k v = d @ [(k, v)]"
  by (induction d) auto

lemma map_of_setitem: "map_of (setitem d k v) = (map_of d)(k \<mapsto> v)"
  by (induction d) (auto simp: fun_eq_iff)

lemma map_fst_setitem:
  "map fst (setitem d k v) = (if k \<in> set (map fst d) then map fst d else map fst d @ [k])"
  by (induction d) force+

lemma keys_setitem: "set (map fst (setitem d k v)) = insert k (set (map fst d))"
  by (simp add: map_fst_setitem insert_absorb)

lemma distinct_setitem: "distinct (map fst d) \<Longrightarrow> distinct (map fst (setitem d k v))"
  by (simp add: map_fst_setitem)

lemma map_of_filter_key: "map_of (filter (\<lambda>p. fst p \<noteq> k) d) = (map_of d)(k := None)"
  by (induction d) (auto simp: fun_eq_iff)

lemma keys_filter_key:
  "set (map fst (filter (\<lambda>p. fst p \<noteq> k) d)) = set (map fst d) - {k}"
  by (induction d) auto

lemma set_setitem_subset: "set (setitem d k v) \<subseteq> insert (k, v) (set d)"
  by (induction d) (auto split: if_splits)

subsection \<open>The comprehension and the four statements after it\<close>

lemma enumerate_fold:
  "distinct vl \<Longrightarrow> (\<lambda>c. [c]) ` set vl \<inter> set (map fst d) = {} \<Longrightarrow>
   fold (\<lambda>(k, v) d. setitem d [v] k) (List.enumerate n vl) d =
     d @ map (\<lambda>(k, v). ([v], k)) (List.enumerate n vl)"
proof (induction vl arbitrary: n d)
  case Nil
  then show ?case by simp
next
  case (Cons c vl)
  from Cons.prems have fresh: "[c] \<notin> set (map fst d)" by auto
  have "(\<lambda>c. [c]) ` set vl \<inter> set (map fst (d @ [([c], n)])) = {}"
    using Cons.prems by auto
  with Cons.IH [of "d @ [([c], n)]" "Suc n"] Cons.prems fresh show ?case
    by (simp add: setitem_append)
qed

lemma enumerate_dict_distinct:
  "distinct vl \<Longrightarrow> enumerate_dict vl = zip (map (\<lambda>c. [c]) vl) [0..<length vl]"
proof -
  assume "distinct vl"
  then have "enumerate_dict vl = map (\<lambda>(k, v). ([v], k)) (List.enumerate 0 vl)"
    unfolding enumerate_dict_def using enumerate_fold [of vl "[]" 0] by simp
  also have "\<dots> = zip (map (\<lambda>c. [c]) vl) [0..<length vl]"
    by (simp add: enumerate_eq_zip zip_map1 zip_commute [of "[0..<length vl]"] map_zip_map split_def)
  finally show ?thesis .
qed


lemma map_fst_enumerate_dict:
  "distinct vl \<Longrightarrow> map fst (enumerate_dict vl) = map (\<lambda>c. [c]) vl"
  by (simp add: enumerate_dict_distinct)

lemma map_snd_enumerate_dict:
  "distinct vl \<Longrightarrow> map snd (enumerate_dict vl) = [0..<length vl]"
  by (simp add: enumerate_dict_distinct)

lemma length_enumerate_dict: "distinct vl \<Longrightarrow> length (enumerate_dict vl) = length vl"
  by (simp add: enumerate_dict_distinct)

lemma distinct_singletons: "distinct vl \<Longrightarrow> distinct (map (\<lambda>c. [c]) vl)"
  by (simp add: distinct_map inj_on_def)

lemma map_of_enumerate_dict_nth:
  assumes "distinct vl" and "i < length vl"
  shows "map_of (enumerate_dict vl) [vl ! i] = Some i"
proof -
  have "map_of (zip (map (\<lambda>c. [c]) vl) [0..<length vl]) (map (\<lambda>c. [c]) vl ! i) =
          Some ([0..<length vl] ! i)"
    using assms by (intro map_of_zip_nth) (simp_all add: distinct_singletons)
  with assms show ?thesis by (simp add: enumerate_dict_distinct)
qed

lemma map_of_enumerate_dict_None:
  "distinct vl \<Longrightarrow> c \<notin> set vl \<Longrightarrow> map_of (enumerate_dict vl) [c] = None"
  by (auto simp: map_of_eq_None_iff enumerate_dict_distinct dest: set_zip_leftD)

lemma map_of_enumerate_dict_bound:
  "distinct vl \<Longrightarrow> (k, v) \<in> set (enumerate_dict vl) \<Longrightarrow> v < length vl"
  by (auto simp: enumerate_dict_distinct dest: set_zip_rightD)

lemma vocab_dict_no_space:
  "distinct vl \<Longrightarrow> CHR '' '' \<notin> set vl \<Longrightarrow> vocab_dict vl = Inl (KeyError '' '')"
  by (simp add: vocab_dict_def getitem_def map_of_enumerate_dict_None)

lemma vocab_dict_space:
  assumes "distinct vl" and "i < length vl" and "vl ! i = CHR '' ''"
  shows "vocab_dict vl =
           Inr (filter (\<lambda>p. fst p \<noteq> '' '') (setitem (enumerate_dict vl) ''|'' i) @
                [(''[UNK]'', length (filter (\<lambda>p. fst p \<noteq> '' '') (setitem (enumerate_dict vl) ''|'' i))),
                 (''[PAD]'', Suc (length (filter (\<lambda>p. fst p \<noteq> '' '') (setitem (enumerate_dict vl) ''|'' i))))])"
proof -
  let ?d0 = "enumerate_dict vl"
  let ?d1 = "setitem ?d0 ''|'' i"
  let ?d2 = "filter (\<lambda>p. fst p \<noteq> '' '') ?d1"
  have get: "getitem ?d0 '' '' = Inr i"
    using map_of_enumerate_dict_nth [OF assms(1,2)] assms(3) by (simp add: getitem_def)
  have "CHR '' '' \<in> set vl" using assms(2,3) nth_mem by fastforce
  then have "'' '' \<in> set (map fst ?d0)"
    using assms(1) by (auto simp: map_fst_enumerate_dict)
  then have "'' '' \<in> set (map fst ?d1)"
    using keys_setitem [of ?d0 "''|''" i] by blast
  then have del: "delitem ?d1 '' '' = Inr ?d2"
    unfolding delitem_def by (simp only: if_True)
  have keys2: "set (map fst ?d2) \<subseteq> insert ''|'' ((\<lambda>c. [c]) ` set vl)"
    using assms(1) keys_setitem [of ?d0 "''|''" i] by (auto simp: map_fst_enumerate_dict)
  then have unk: "''[UNK]'' \<notin> set (map fst ?d2)" by auto
  from keys2 have "''[PAD]'' \<notin> set (map fst (?d2 @ [(''[UNK]'', length ?d2)]))" by auto
  with unk get del show ?thesis
    by (simp add: vocab_dict_def Let_def setitem_append del: set_map map_append)
qed


lemma card_keys:
  assumes "finite S"
  shows "card (insert ''|'' ((\<lambda>c. [c]) ` (S - {CHR '' ''}))) =
           card (S - {CHR '' '', CHR ''|''}) + 1"
proof -
  have eq: "insert ''|'' ((\<lambda>c. [c]) ` (S - {CHR '' ''})) =
              insert ''|'' ((\<lambda>c. [c]) ` (S - {CHR '' '', CHR ''|''}))"
    by auto
  have "''|'' \<notin> (\<lambda>c. [c]) ` (S - {CHR '' '', CHR ''|''})" by auto
  moreover have "card ((\<lambda>c. [c]) ` (S - {CHR '' '', CHR ''|''})) = card (S - {CHR '' '', CHR ''|''})"
    by (intro card_image) (simp add: inj_on_def)
  ultimately show ?thesis
    using assms by (simp add: eq del: insert_iff)
qed

lemma vocab_dict_result:
  assumes vl: "distinct vl" and sp: "CHR '' '' \<in> set vl"
  obtains i d2 where
    "i < length vl" and "vl ! i = CHR '' ''" and
    "getitem (enumerate_dict vl) '' '' = Inr i" and
    "vocab_dict vl = Inr (d2 @ [(''[UNK]'', length d2), (''[PAD]'', Suc (length d2))])" and
    "set (map fst d2) = insert ''|'' ((\<lambda>c. [c]) ` (set vl - {CHR '' ''}))" and
    "distinct (map fst d2)" and
    "map_of d2 ''|'' = Some i" and
    "\<And>k v. (k, v) \<in> set d2 \<Longrightarrow> v < length vl" and
    "length d2 = card (set vl - {CHR '' '', CHR ''|''}) + 1"
proof -
  from sp obtain i where i: "i < length vl" "vl ! i = CHR '' ''"
    by (auto simp: in_set_conv_nth)
  let ?d0 = "enumerate_dict vl"
  let ?d1 = "setitem ?d0 ''|'' i"
  let ?d2 = "filter (\<lambda>p. fst p \<noteq> '' '') ?d1"
  have get: "getitem ?d0 '' '' = Inr i"
    using map_of_enumerate_dict_nth [OF vl i(1)] i(2) by (simp add: getitem_def)
  have res: "vocab_dict vl = Inr (?d2 @ [(''[UNK]'', length ?d2), (''[PAD]'', Suc (length ?d2))])"
    using vocab_dict_space [OF vl i] .
  have "set (map fst ?d2) = insert ''|'' (set (map (\<lambda>c. [c]) vl)) - {'' ''}"
    by (simp only: keys_filter_key keys_setitem map_fst_enumerate_dict [OF vl])
  also have "\<dots> = insert ''|'' ((\<lambda>c. [c]) ` (set vl - {CHR '' ''}))"
    by auto
  finally have keys: "set (map fst ?d2) = insert ''|'' ((\<lambda>c. [c]) ` (set vl - {CHR '' ''}))" .
  have dist: "distinct (map fst ?d2)"
    using vl by (intro distinct_map_filter distinct_setitem)
      (simp add: map_fst_enumerate_dict distinct_singletons)
  have bar: "map_of ?d2 ''|'' = Some i"
    by (simp add: map_of_filter_key map_of_setitem)
  have bound: "v < length vl" if "(k, v) \<in> set ?d2" for k v
  proof -
    from that have "(k, v) \<in> set ?d1" by simp
    then have "(k, v) = (''|'', i) \<or> (k, v) \<in> set ?d0"
      using set_setitem_subset [of ?d0 "''|''" i] by auto
    then show ?thesis
      using i(1) map_of_enumerate_dict_bound [OF vl] by auto
  qed
  have "length ?d2 = length (map fst ?d2)" by simp
  also have "\<dots> = card (set (map fst ?d2))"
    using dist by (simp only: distinct_card)
  also have "\<dots> = card (set vl - {CHR '' '', CHR ''|''}) + 1"
    by (simp only: keys card_keys [OF finite_set])
  finally have len: "length ?d2 = card (set vl - {CHR '' '', CHR ''|''}) + 1" .
  from i get res keys dist bar bound len show ?thesis
    by (rule that)
qed

subsection \<open>Outcomes of the cell\<close>

lemma build_vocabulary_iff:
  "build_vocabulary ds r \<longleftrightarrow>
     (\<exists>vl. distinct vl \<and> set vl = vocab_set ds \<and> r = vocab_dict vl)"
  by (auto simp: build_vocabulary.simps)


lemma build_vocabulary_Inr:
  assumes "build_vocabulary ds (Inr m)"
  obtains vl i d2 where
    "distinct vl" and "set vl = vocab_set ds" and "vocab_dict vl = Inr m" and
    "i < length vl" and "vl ! i = CHR '' ''" and
    "getitem (enumerate_dict vl) '' '' = Inr i" and
    "m = d2 @ [(''[UNK]'', length d2), (''[PAD]'', Suc (length d2))]" and
    "set (map fst d2) = insert ''|'' ((\<lambda>c. [c]) ` (vocab_set ds - {CHR '' ''}))" and
    "distinct (map fst d2)" and
    "map_of d2 ''|'' = Some i" and
    "\<And>k v. (k, v) \<in> set d2 \<Longrightarrow> v < length vl" and
    "length d2 = card (vocab_set ds - {CHR '' '', CHR ''|''}) + 1"
proof -
  from assms obtain vl where vl: "distinct vl" "set vl = vocab_set ds" "vocab_dict vl = Inr m"
    by (auto simp: build_vocabulary_iff)
  have sp: "CHR '' '' \<in> set vl"
  proof (rule ccontr)
    assume "CHR '' '' \<notin> set vl"
    with vl(1,3) show False by (simp add: vocab_dict_no_space)
  qed
  from vocab_dict_result [OF vl(1) sp] obtain i d2 where r:
    "i < length vl" "vl ! i = CHR '' ''"
    "getitem (enumerate_dict vl) '' '' = Inr i"
    "vocab_dict vl = Inr (d2 @ [(''[UNK]'', length d2), (''[PAD]'', Suc (length d2))])"
    "set (map fst d2) = insert ''|'' ((\<lambda>c. [c]) ` (set vl - {CHR '' ''}))"
    "distinct (map fst d2)"
    "map_of d2 ''|'' = Some i"
    "\<And>k v. (k, v) \<in> set d2 \<Longrightarrow> v < length vl"
    "length d2 = card (set vl - {CHR '' '', CHR ''|''}) + 1"
    by metis
  from r(4) vl(3) have m: "m = d2 @ [(''[UNK]'', length d2), (''[PAD]'', Suc (length d2))]" by simp
  show ?thesis
  proof (rule that [of vl i d2])
    show "\<And>k v. (k, v) \<in> set d2 \<Longrightarrow> v < length vl" by (rule r(8))
  qed (use vl r m in simp_all)
qed




lemma keys_of_result:
  assumes "build_vocabulary ds (Inr m)"
  shows "set (map fst m) =
           insert ''|'' (insert ''[UNK]'' (insert ''[PAD]'' ((\<lambda>c. [c]) ` (vocab_set ds - {CHR '' ''}))))"
    and "distinct (map fst m)"
proof -
  from assms obtain vl i d2 where
    vl: "distinct vl" "set vl = vocab_set ds" and
    res: "vocab_dict vl = Inr m" and
    sp: "i < length vl" "vl ! i = CHR '' ''" and
    get: "getitem (enumerate_dict vl) '' '' = Inr i" and
    m: "m = d2 @ [(''[UNK]'', length d2), (''[PAD]'', Suc (length d2))]" and
    keys: "set (map fst d2) = insert ''|'' ((\<lambda>c. [c]) ` (vocab_set ds - {CHR '' ''}))" and
    dist: "distinct (map fst d2)" and
    bar: "map_of d2 ''|'' = Some i" and
    bound: "\<And>k v. (k, v) \<in> set d2 \<Longrightarrow> v < length vl" and
    len: "length d2 = card (vocab_set ds - {CHR '' '', CHR ''|''}) + 1"
    by (rule build_vocabulary_Inr) blast
  show "set (map fst m) =
           insert ''|'' (insert ''[UNK]'' (insert ''[PAD]'' ((\<lambda>c. [c]) ` (vocab_set ds - {CHR '' ''}))))"
    using keys by (auto simp: m)
  have "''[UNK]'' \<notin> set (map fst d2)" and "''[PAD]'' \<notin> set (map fst d2)"
    using keys by auto
  with dist show "distinct (map fst m)" by (simp add: m)
qed

lemma card_without_space_bar:
  assumes "distinct vl" and "CHR '' '' \<in> set vl"
  shows "length vl \<le> card (set vl - {CHR '' '', CHR ''|''}) + 2"
    and "CHR ''|'' \<notin> set vl \<Longrightarrow> card (set vl - {CHR '' '', CHR ''|''}) + 1 = length vl"
    and "CHR ''|'' \<notin> set vl \<Longrightarrow> card (set vl - {CHR '' '', CHR ''|''}) = card (set vl - {CHR '' ''})"
proof -
  have n: "card (set vl) = length vl" using assms(1) by (rule distinct_card)
  have "card (set vl) - card {CHR '' '', CHR ''|''} \<le> card (set vl - {CHR '' '', CHR ''|''})"
    by (intro diff_card_le_card_Diff) simp
  with n show "length vl \<le> card (set vl - {CHR '' '', CHR ''|''}) + 2" by simp
  assume nb: "CHR ''|'' \<notin> set vl"
  then have eq: "set vl - {CHR '' '', CHR ''|''} = set vl - {CHR '' ''}" by auto
  then show "card (set vl - {CHR '' '', CHR ''|''}) = card (set vl - {CHR '' ''})" by simp
  have "card (set vl - {CHR '' ''}) = card (set vl) - 1"
    using assms(2) by simp
  moreover have "0 < card (set vl)" using assms(2) by (auto simp: card_gt_0_iff)
  ultimately show "card (set vl - {CHR '' '', CHR ''|''}) + 1 = length vl"
    using n eq by simp
qed

lemma length_of_result:
  assumes "build_vocabulary ds (Inr m)"
  shows "length m = card (vocab_set ds - {CHR '' '', CHR ''|''}) + 3"
proof -
  from assms obtain vl i d2 where
    vl: "distinct vl" "set vl = vocab_set ds" and
    res: "vocab_dict vl = Inr m" and
    sp: "i < length vl" "vl ! i = CHR '' ''" and
    get: "getitem (enumerate_dict vl) '' '' = Inr i" and
    m: "m = d2 @ [(''[UNK]'', length d2), (''[PAD]'', Suc (length d2))]" and
    keys: "set (map fst d2) = insert ''|'' ((\<lambda>c. [c]) ` (vocab_set ds - {CHR '' ''}))" and
    dist: "distinct (map fst d2)" and
    bar: "map_of d2 ''|'' = Some i" and
    bound: "\<And>k v. (k, v) \<in> set d2 \<Longrightarrow> v < length vl" and
    len: "length d2 = card (vocab_set ds - {CHR '' '', CHR ''|''}) + 1"
    by (rule build_vocabulary_Inr) blast
  from m len show ?thesis by simp
qed

lemma reserved_appended:
  assumes "build_vocabulary ds (Inr m)"
  shows "\<exists>m'. m = m' @ [(''[UNK]'', length m - 2), (''[PAD]'', length m - 1)] \<and>
              ''[UNK]'' \<notin> set (map fst m') \<and> ''[PAD]'' \<notin> set (map fst m')"
proof -
  from assms obtain vl i d2 where
    vl: "distinct vl" "set vl = vocab_set ds" and
    res: "vocab_dict vl = Inr m" and
    sp: "i < length vl" "vl ! i = CHR '' ''" and
    get: "getitem (enumerate_dict vl) '' '' = Inr i" and
    m: "m = d2 @ [(''[UNK]'', length d2), (''[PAD]'', Suc (length d2))]" and
    keys: "set (map fst d2) = insert ''|'' ((\<lambda>c. [c]) ` (vocab_set ds - {CHR '' ''}))" and
    dist: "distinct (map fst d2)" and
    bar: "map_of d2 ''|'' = Some i" and
    bound: "\<And>k v. (k, v) \<in> set d2 \<Longrightarrow> v < length vl" and
    len: "length d2 = card (vocab_set ds - {CHR '' '', CHR ''|''}) + 1"
    by (rule build_vocabulary_Inr) blast
  have "m = d2 @ [(''[UNK]'', length m - 2), (''[PAD]'', length m - 1)]"
    using m by simp
  moreover have "''[UNK]'' \<notin> set (map fst d2)" and "''[PAD]'' \<notin> set (map fst d2)"
    using keys by auto
  ultimately show ?thesis by blast
qed

lemma reserved_indices:
  assumes "build_vocabulary ds (Inr m)"
  shows "getitem m ''[UNK]'' = Inr (length m - 2)" and "getitem m ''[PAD]'' = Inr (length m - 1)"
proof -
  from reserved_appended [OF assms] obtain m' where
    m: "m = m' @ [(''[UNK]'', length m - 2), (''[PAD]'', length m - 1)]" and
    "''[UNK]'' \<notin> set (map fst m')" and "''[PAD]'' \<notin> set (map fst m')"
    by blast
  then have none: "map_of m' ''[UNK]'' = None" "map_of m' ''[PAD]'' = None"
    by (simp_all add: map_of_eq_None_iff)
  have "map_of m ''[UNK]'' = Some (length m - 2)"
    by (subst m) (simp add: map_add_def none)
  then show "getitem m ''[UNK]'' = Inr (length m - 2)" by (simp add: getitem_def)
  have "map_of m ''[PAD]'' = Some (length m - 1)"
    by (subst m) (simp add: map_add_def none)
  then show "getitem m ''[PAD]'' = Inr (length m - 1)" by (simp add: getitem_def)
qed

text \<open>
  The shape of every mapping the cell returns: its size, the two reserved tokens at the
  end with the indices \<open>N - 2\<close> and \<open>N - 1\<close>, and the bound on every other index.
\<close>

lemma result_size_and_reserved_tokens:
  assumes "build_vocabulary ds (Inr m)"
  shows "length m = card (vocab_set ds - {CHR '' '', CHR ''|''}) + 3 \<and>
         (CHR ''|'' \<notin> vocab_set ds \<longrightarrow> length m = card (vocab_set ds - {CHR '' ''}) + 3) \<and>
         (\<exists>m'. m = m' @ [(''[UNK]'', length m - 2), (''[PAD]'', length m - 1)]) \<and>
         getitem m ''[UNK]'' = Inr (length m - 2) \<and>
         getitem m ''[PAD]'' = Inr (length m - 1) \<and>
         (\<forall>(k, v) \<in> set m. k \<noteq> ''[PAD]'' \<longrightarrow> v \<le> length m - 2) \<and>
         (CHR ''|'' \<notin> vocab_set ds \<longrightarrow>
            (\<forall>(k, v) \<in> set m. k \<noteq> ''[UNK]'' \<and> k \<noteq> ''[PAD]'' \<longrightarrow> v < length m - 2))"
proof -
  from assms obtain vl i d2 where
    vl: "distinct vl" "set vl = vocab_set ds" and
    res: "vocab_dict vl = Inr m" and
    sp: "i < length vl" "vl ! i = CHR '' ''" and
    get: "getitem (enumerate_dict vl) '' '' = Inr i" and
    m: "m = d2 @ [(''[UNK]'', length d2), (''[PAD]'', Suc (length d2))]" and
    keys: "set (map fst d2) = insert ''|'' ((\<lambda>c. [c]) ` (vocab_set ds - {CHR '' ''}))" and
    dist: "distinct (map fst d2)" and
    bar: "map_of d2 ''|'' = Some i" and
    bound: "\<And>k v. (k, v) \<in> set d2 \<Longrightarrow> v < length vl" and
    len: "length d2 = card (vocab_set ds - {CHR '' '', CHR ''|''}) + 1"
    by (rule build_vocabulary_Inr) blast
  have spin: "CHR '' '' \<in> set vl" using sp nth_mem by fastforce
  have lm: "length m = length d2 + 2" using m by simp
  have size: "length m = card (vocab_set ds - {CHR '' '', CHR ''|''}) + 3"
    by (rule length_of_result [OF assms])
  have size': "length m = card (vocab_set ds - {CHR '' ''}) + 3" if "CHR ''|'' \<notin> vocab_set ds"
    using that size card_without_space_bar(3) [OF vl(1) spin] vl(2) by simp
  have app: "\<exists>m'. m = m' @ [(''[UNK]'', length m - 2), (''[PAD]'', length m - 1)]"
    using reserved_appended [OF assms] by blast
  have le: "length vl \<le> length d2 + 1"
    using card_without_space_bar(1) [OF vl(1) spin] len vl(2) by simp
  have b1: "\<forall>(k, v) \<in> set m. k \<noteq> ''[PAD]'' \<longrightarrow> v \<le> length m - 2"
    using bound le lm by (fastforce simp: m)
  have b2: "\<forall>(k, v) \<in> set m. k \<noteq> ''[UNK]'' \<and> k \<noteq> ''[PAD]'' \<longrightarrow> v < length m - 2"
    if "CHR ''|'' \<notin> vocab_set ds"
  proof -
    have "length d2 = length vl"
      using card_without_space_bar(2) [OF vl(1) spin] that len vl(2) by simp
    then show ?thesis using bound lm by (fastforce simp: m)
  qed
  from size size' app reserved_indices [OF assms] b1 b2 show ?thesis by blast
qed

lemma mset_values_without_key:
  "distinct (map fst d) \<Longrightarrow> map_of d k = Some v \<Longrightarrow>
   mset (map snd (filter (\<lambda>p. fst p \<noteq> k) d)) + {#v#} = mset (map snd d)"
proof (induction d)
  case Nil
  then show ?case by simp
next
  case (Cons p d)
  show ?case
  proof (cases "fst p = k")
    case True
    with Cons.prems have "k \<notin> fst ` set d" and "snd p = v" by auto
    then have "filter (\<lambda>p. fst p \<noteq> k) d = d" by (auto simp: filter_id_conv)
    with True \<open>snd p = v\<close> show ?thesis by simp
  next
    case False
    with Cons.prems have "distinct (map fst d)" and "map_of d k = Some v"
      by (auto split: if_splits)
    from Cons.IH [OF this] False show ?thesis by simp
  qed
qed

lemma vocabulary_bijective_without_bar:
  assumes b: "build_vocabulary ds (Inr m)" and nobar: "CHR ''|'' \<notin> vocab_set ds"
  shows "distinct (map snd m)" and "set (map snd m) = {0..<length m}"
proof -
  from b obtain vl where vl: "distinct vl" "set vl = vocab_set ds" "vocab_dict vl = Inr m"
    by (auto simp: build_vocabulary_iff)
  have sp: "CHR '' '' \<in> set vl"
  proof (rule ccontr)
    assume "CHR '' '' \<notin> set vl"
    with vl(1,3) show False by (simp add: vocab_dict_no_space)
  qed
  then obtain i where i: "i < length vl" "vl ! i = CHR '' ''"
    by (auto simp: in_set_conv_nth)
  define d0 where "d0 = enumerate_dict vl"
  define d2 where "d2 = filter (\<lambda>p. fst p \<noteq> '' '') (setitem d0 ''|'' i)"
  have m: "m = d2 @ [(''[UNK]'', length d2), (''[PAD]'', Suc (length d2))]"
    using vocab_dict_space [OF vl(1) i] vl(3) by (simp add: d2_def d0_def)
  have "''|'' \<notin> set (map fst d0)"
    using nobar vl by (auto simp: d0_def map_fst_enumerate_dict)
  then have d2: "d2 = filter (\<lambda>p. fst p \<noteq> '' '') d0 @ [(''|'', i)]"
    by (simp add: d2_def setitem_append)
  have "mset (map snd (filter (\<lambda>p. fst p \<noteq> '' '') d0)) + {#i#} = mset (map snd d0)"
    unfolding d0_def
    using vl(1) map_of_enumerate_dict_nth [OF vl(1) i(1)] i(2)
    by (intro mset_values_without_key) (simp_all add: map_fst_enumerate_dict distinct_singletons)
  then have vals: "mset (map snd d2) = mset [0..<length vl]"
    by (simp add: d2 d0_def map_snd_enumerate_dict [OF vl(1)])
  then have "length (map snd d2) = length [0..<length vl]"
    by (rule mset_eq_length)
  then have len: "length d2 = length vl" by simp
  have "mset (map snd m) = mset (map snd d2) + {#length vl, Suc (length vl)#}"
    by (simp add: m len)
  also have "\<dots> = mset ([0..<length vl] @ [length vl, Suc (length vl)])"
    by (simp only: vals) simp
  also have "[0..<length vl] @ [length vl, Suc (length vl)] = [0..<length m]"
    by (simp add: m len)
  finally have ms: "mset (map snd m) = mset [0..<length m]" .
  from ms show "distinct (map snd m)"
    using mset_eq_imp_distinct_iff distinct_upt by blast
  from ms have "set (map snd m) = set [0..<length m]" by (rule mset_eq_setD)
  then show "set (map snd m) = {0..<length m}" by simp
qed

text \<open>
  When the character \<open>|\<close> is itself in the corpus, the substitution overwrites its
  entry. The mapping is then one entry short, and unless the set happens to list \<open>|\<close>
  last, the index \<open>len(vocab_dict)\<close> given to \<open>[UNK]\<close> is already taken.
\<close>

lemma size_with_bar:
  assumes "build_vocabulary ds (Inr m)" and "CHR ''|'' \<in> vocab_set ds"
  shows "length m = card (vocab_set ds - {CHR '' ''}) + 2"
proof -
  have "vocab_set ds - {CHR '' ''} = insert CHR ''|'' (vocab_set ds - {CHR '' '', CHR ''|''})"
    using assms(2) by auto
  moreover have "CHR ''|'' \<notin> vocab_set ds - {CHR '' '', CHR ''|''}" by simp
  moreover have "finite (vocab_set ds - {CHR '' '', CHR ''|''})"
    using finite_vocab_set by simp
  ultimately have "card (vocab_set ds - {CHR '' ''}) = card (vocab_set ds - {CHR '' '', CHR ''|''}) + 1"
    by (simp only: card_insert_disjoint) simp
  with length_of_result [OF assms(1)] show ?thesis by simp
qed

lemma collision_unless_bar_last:
  assumes vl: "distinct vocab_list" and sp: "CHR '' '' \<in> set vocab_list"
    and bar: "CHR ''|'' \<in> set vocab_list" and last: "last vocab_list \<noteq> CHR ''|''"
    and res: "vocab_dict vocab_list = Inr m"
  shows "\<not> distinct (map snd m)"
proof -
  from sp obtain i where i: "i < length vocab_list" "vocab_list ! i = CHR '' ''"
    by (auto simp: in_set_conv_nth)
  define n where "n = length vocab_list"
  define d0 where "d0 = enumerate_dict vocab_list"
  define d2 where "d2 = filter (\<lambda>p. fst p \<noteq> '' '') (setitem d0 ''|'' i)"
  have m: "m = d2 @ [(''[UNK]'', length d2), (''[PAD]'', Suc (length d2))]"
    using vocab_dict_space [OF vl i] res by (simp add: d2_def d0_def)
  have npos: "0 < n" using i(1) by (cases vocab_list) (simp_all add: n_def)
  \<comment> \<open>the dictionary after the deletion has one entry less than the comprehension gave\<close>
  have k0: "map fst d0 = map (\<lambda>c. [c]) vocab_list"
    by (simp add: d0_def map_fst_enumerate_dict [OF vl])
  have "''|'' \<in> set (map fst d0)" using bar by (simp add: k0)
  then have "map fst (setitem d0 ''|'' i) = map fst d0"
    by (simp add: map_fst_setitem del: set_map)
  then have k1: "map fst (setitem d0 ''|'' i) = map (\<lambda>c. [c]) vocab_list"
    by (simp add: k0)
  have "map fst d2 = filter (\<lambda>k. k \<noteq> '' '') (map fst (setitem d0 ''|'' i))"
    by (simp add: d2_def filter_map comp_def)
  also have "\<dots> = map (\<lambda>c. [c]) (filter (\<lambda>c. c \<noteq> CHR '' '') vocab_list)"
    by (simp add: k1 filter_map comp_def)
  finally have k2: "map fst d2 = map (\<lambda>c. [c]) (filter (\<lambda>c. c \<noteq> CHR '' '') vocab_list)" .
  have "length (filter (\<lambda>c. c \<noteq> CHR '' '') vocab_list) + 1 = length vocab_list"
    using vl sp
  proof (induction vocab_list)
    case Nil
    then show ?case by simp
  next
    case (Cons c cs)
    show ?case
    proof (cases "c = CHR '' ''")
      case True
      with Cons.prems have "filter (\<lambda>c. c \<noteq> CHR '' '') cs = cs"
        by (auto simp: filter_id_conv)
      with True show ?thesis by simp
    next
      case False
      with Cons show ?thesis by simp
    qed
  qed
  then have len: "length d2 + 1 = n"
    using arg_cong [OF k2, of length] by (simp add: n_def)
  \<comment> \<open>the key of the last character, or \<open>|\<close> when that is the space, holds \<open>n - 1\<close>\<close>
  define c where "c = last vocab_list"
  have cn: "vocab_list ! (n - 1) = c" and cin: "n - 1 < length vocab_list"
    using npos by (simp_all add: c_def n_def last_conv_nth)
  have "\<exists>k. map_of d2 k = Some (n - 1)"
  proof (cases "c = CHR '' ''")
    case True
    with cn i(2) have "vocab_list ! i = vocab_list ! (n - 1)" by simp
    with vl i(1) cin have "i = n - 1" by (simp only: nth_eq_iff_index_eq)
    then have "map_of d2 ''|'' = Some (n - 1)"
      by (simp add: d2_def map_of_filter_key map_of_setitem)
    then show ?thesis by blast
  next
    case False
    have "map_of d0 [c] = Some (n - 1)"
      using map_of_enumerate_dict_nth [OF vl cin] cn by (simp add: d0_def)
    moreover have "c \<noteq> CHR ''|''" using last by (simp add: c_def)
    ultimately have "map_of d2 [c] = Some (n - 1)"
      using False by (simp add: d2_def map_of_filter_key map_of_setitem)
    then show ?thesis by blast
  qed
  then obtain k where "(k, n - 1) \<in> set d2" by (blast dest: map_of_SomeD)
  then have "n - 1 \<in> set (map snd d2)" by force
  moreover have "length d2 = n - 1" using len by simp
  ultimately show ?thesis by (simp add: m)
qed

lemmas eval_vocab_dict =
  vocab_dict_def enumerate_dict_def getitem_def delitem_def enumerate_eq_zip upt_rec

lemmas eval_vocab_set = vocab_set_def extract_characters_def

section \<open>The claims about the vocabulary\<close>

text \<open>
  Claim C3 says that every returned mapping is injective and that its indices are
  exactly \<open>[0, N)\<close>. The cell breaks this when the corpus contains the character
  \<open>|\<close>, which the normaliser does not remove: \<open>vocab_dict["|"] = vocab_dict[" "]\<close>
  then overwrites the entry of that character instead of adding a key, the index the
  character had is lost, and \<open>len(vocab_dict)\<close> is no longer the next free index. For
  the normalised corpus \<open>"|a b"\<close>, \<open>"a"\<close> and the enumeration \<open>| a space b\<close> the
  cell returns a mapping in which \<open>b\<close> and \<open>[UNK]\<close> both have the index 3 and no key
  has the index 0. (Without \<open>|\<close> in the corpus the mapping is injective and dense,
  \<open>vocabulary_bijective_without_bar\<close>; with it, two keys share an index for every
  enumeration that does not list \<open>|\<close> last, \<open>collision_unless_bar_last\<close>.)
\<close>

theorem bar_in_corpus_collision:
  "batch_text (remove_special_characters \<lparr>batch_text = ''|a b''\<rparr>) = ''|a b'' \<and>
   batch_text (remove_special_characters \<lparr>batch_text = ''a''\<rparr>) = ''a'' \<and>
   build_vocabulary \<lparr>train = [''|a b''], test = [''a'']\<rparr>
     (Inr [(''|'', 2), (''a'', 1), (''b'', 3), (''[UNK]'', 3), (''[PAD]'', 4)]) \<and>
   \<not> distinct (map snd [(''|'', 2 :: nat), (''a'', 1), (''b'', 3), (''[UNK]'', 3), (''[PAD]'', 4)]) \<and>
   set (map snd [(''|'', 2 :: nat), (''a'', 1), (''b'', 3), (''[UNK]'', 3), (''[PAD]'', 4)]) \<noteq>
     {0 ..< length [(''|'', 2 :: nat), (''a'', 1), (''b'', 3), (''[UNK]'', 3), (''[PAD]'', 4)]}"
proof -
  have n1: "batch_text (remove_special_characters \<lparr>batch_text = ''|a b''\<rparr>) = ''|a b''"
    by (simp add: normalised_text chars_to_ignore_def lower_char_def is_upper_def)
  have n2: "batch_text (remove_special_characters \<lparr>batch_text = ''a''\<rparr>) = ''a''"
    by (simp add: normalised_text chars_to_ignore_def lower_char_def is_upper_def)
  have v: "vocab_dict ''|a b'' = Inr [(''|'', 2), (''a'', 1), (''b'', 3), (''[UNK]'', 3), (''[PAD]'', 4)]"
    by (simp add: eval_vocab_dict)
  have s: "set ''|a b'' = vocab_set \<lparr>train = [''|a b''], test = [''a'']\<rparr>"
    by (auto simp: eval_vocab_set)
  have b: "build_vocabulary \<lparr>train = [''|a b''], test = [''a'']\<rparr>
     (Inr [(''|'', 2), (''a'', 1), (''b'', 3), (''[UNK]'', 3), (''[PAD]'', 4)])"
    using build_vocabulary.run [of "''|a b''" "\<lparr>train = [''|a b''], test = [''a'']\<rparr>"] v s
    by simp
  have z: "(0 :: nat) \<notin> set (map snd [(''|'', 2 :: nat), (''a'', 1), (''b'', 3), (''[UNK]'', 3), (''[PAD]'', 4)])"
    by simp
  have "set (map snd [(''|'', 2 :: nat), (''a'', 1), (''b'', 3), (''[UNK]'', 3), (''[PAD]'', 4)]) \<noteq>
     {0 ..< length [(''|'', 2 :: nat), (''a'', 1), (''b'', 3), (''[UNK]'', 3), (''[PAD]'', 4)]}"
  proof
    assume "set (map snd [(''|'', 2 :: nat), (''a'', 1), (''b'', 3), (''[UNK]'', 3), (''[PAD]'', 4)]) =
     {0 ..< length [(''|'', 2 :: nat), (''a'', 1), (''b'', 3), (''[UNK]'', 3), (''[PAD]'', 4)]}"
    then have "(0 :: nat) \<in> set (map snd [(''|'', 2 :: nat), (''a'', 1), (''b'', 3), (''[UNK]'', 3), (''[PAD]'', 4)])"
      by (simp only: ) simp
    with z show False by blast
  qed
  with n1 n2 b show ?thesis by simp
qed

text \<open>
  Claim C4 says that the size \<open>N\<close> of the returned mapping is the number of distinct
  characters other than the space plus 3. The same overwriting of an existing key
  \<open>|\<close> breaks this: for the normalised corpus \<open>"a|b c"\<close>, \<open>"c a"\<close> there are four
  distinct characters other than the space, and the returned mapping has six entries,
  not seven. (The size is one short for every corpus that contains \<open>|\<close>,
  \<open>size_with_bar\<close>, and is the claimed one for every other corpus,
  \<open>result_size_and_reserved_tokens\<close>.)
\<close>

theorem bar_in_corpus_size:
  "batch_text (remove_special_characters \<lparr>batch_text = ''a|b c''\<rparr>) = ''a|b c'' \<and>
   batch_text (remove_special_characters \<lparr>batch_text = ''c a''\<rparr>) = ''c a'' \<and>
   build_vocabulary \<lparr>train = [''a|b c''], test = [''c a'']\<rparr>
     (Inr [(''a'', 0), (''|'', 3), (''b'', 2), (''c'', 4), (''[UNK]'', 4), (''[PAD]'', 5)]) \<and>
   length [(''a'', 0 :: nat), (''|'', 3), (''b'', 2), (''c'', 4), (''[UNK]'', 4), (''[PAD]'', 5)] \<noteq>
     card (vocab_set \<lparr>train = [''a|b c''], test = [''c a'']\<rparr> - {CHR '' ''}) + 3"
proof -
  have n1: "batch_text (remove_special_characters \<lparr>batch_text = ''a|b c''\<rparr>) = ''a|b c''"
    by (simp add: normalised_text chars_to_ignore_def lower_char_def is_upper_def)
  have n2: "batch_text (remove_special_characters \<lparr>batch_text = ''c a''\<rparr>) = ''c a''"
    by (simp add: normalised_text chars_to_ignore_def lower_char_def is_upper_def)
  have v: "vocab_dict ''a|b c'' =
      Inr [(''a'', 0), (''|'', 3), (''b'', 2), (''c'', 4), (''[UNK]'', 4), (''[PAD]'', 5)]"
    by (simp add: eval_vocab_dict)
  have s: "vocab_set \<lparr>train = [''a|b c''], test = [''c a'']\<rparr> = set ''a|b c''"
    by (auto simp: eval_vocab_set)
  have b: "build_vocabulary \<lparr>train = [''a|b c''], test = [''c a'']\<rparr>
     (Inr [(''a'', 0), (''|'', 3), (''b'', 2), (''c'', 4), (''[UNK]'', 4), (''[PAD]'', 5)])"
    using build_vocabulary.run [of "''a|b c''" "\<lparr>train = [''a|b c''], test = [''c a'']\<rparr>"] v s
    by simp
  have "set ''a|b c'' - {CHR '' ''} = set ''a|bc''" by auto
  then have "card (vocab_set \<lparr>train = [''a|b c''], test = [''c a'']\<rparr> - {CHR '' ''}) = 4"
    by (simp only: s) simp
  with n1 n2 b show ?thesis by simp
qed









text \<open>
  Claim C8 says that permuting the transcripts leaves the returned mapping the same.
  The indices of the characters follow the iteration order of a Python set, which the
  code does not fix. Counterexample: the same transcripts in two orders, and two
  outcomes that give the character \<open>a\<close> different indices.
\<close>

theorem transcript_order_counterexample:
  "mset (train \<lparr>train = [''a b'', ''c''], test = [''a'']\<rparr>) =
     mset (train \<lparr>train = [''c'', ''a b''], test = [''a'']\<rparr>) \<and>
   test \<lparr>train = [''a b'', ''c''], test = [''a'']\<rparr> = test \<lparr>train = [''c'', ''a b''], test = [''a'']\<rparr> \<and>
   build_vocabulary \<lparr>train = [''a b'', ''c''], test = [''a'']\<rparr>
     (Inr [(''a'', 0), (''b'', 2), (''c'', 3), (''|'', 1), (''[UNK]'', 4), (''[PAD]'', 5)]) \<and>
   build_vocabulary \<lparr>train = [''c'', ''a b''], test = [''a'']\<rparr>
     (Inr [(''c'', 0), (''a'', 2), (''b'', 3), (''|'', 1), (''[UNK]'', 4), (''[PAD]'', 5)]) \<and>
   getitem [(''a'', 0), (''b'', 2), (''c'', 3), (''|'', 1), (''[UNK]'', 4), (''[PAD]'', 5)] ''a'' \<noteq>
     getitem [(''c'', 0), (''a'', 2), (''b'', 3), (''|'', 1), (''[UNK]'', 4), (''[PAD]'', 5)] ''a''"
proof -
  have v1: "vocab_dict ''a bc'' =
      Inr [(''a'', 0), (''b'', 2), (''c'', 3), (''|'', 1), (''[UNK]'', 4), (''[PAD]'', 5)]"
    by (simp add: eval_vocab_dict)
  have s1: "set ''a bc'' = vocab_set \<lparr>train = [''a b'', ''c''], test = [''a'']\<rparr>"
    by (auto simp: eval_vocab_set)
  have b1: "build_vocabulary \<lparr>train = [''a b'', ''c''], test = [''a'']\<rparr>
     (Inr [(''a'', 0), (''b'', 2), (''c'', 3), (''|'', 1), (''[UNK]'', 4), (''[PAD]'', 5)])"
    using build_vocabulary.run [of "''a bc''" "\<lparr>train = [''a b'', ''c''], test = [''a'']\<rparr>"] v1 s1
    by simp
  have v2: "vocab_dict ''c ab'' =
      Inr [(''c'', 0), (''a'', 2), (''b'', 3), (''|'', 1), (''[UNK]'', 4), (''[PAD]'', 5)]"
    by (simp add: eval_vocab_dict)
  have s2: "set ''c ab'' = vocab_set \<lparr>train = [''c'', ''a b''], test = [''a'']\<rparr>"
    by (auto simp: eval_vocab_set)
  have b2: "build_vocabulary \<lparr>train = [''c'', ''a b''], test = [''a'']\<rparr>
     (Inr [(''c'', 0), (''a'', 2), (''b'', 3), (''|'', 1), (''[UNK]'', 4), (''[PAD]'', 5)])"
    using build_vocabulary.run [of "''c ab''" "\<lparr>train = [''c'', ''a b''], test = [''a'']\<rparr>"] v2 s2
    by simp
  from b1 b2 show ?thesis by (simp add: getitem_def)
qed

lemma vocab_set_permutation:
  assumes "mset (train ds @ test ds) = mset (train ds' @ test ds')"
    and "length (train ds) = length (train ds')"
  shows "vocab_set ds = vocab_set ds'"
proof -
  from assms(1) have "set (train ds @ test ds) = set (train ds' @ test ds')"
    by (rule mset_eq_setD)
  then have u: "set (train ds) \<union> set (test ds) = set (train ds') \<union> set (test ds')" by simp
  from assms(1) have "length (train ds @ test ds) = length (train ds' @ test ds')"
    by (rule mset_eq_length)
  with assms(2) have l: "length (test ds) = length (test ds')" by simp
  have "vocab_set ds = \<Union>(set ` (set (train ds) \<union> set (test ds))) \<union>
      ((if 2 \<le> length (train ds) then {CHR '' ''} else {}) \<union>
       (if 2 \<le> length (test ds) then {CHR '' ''} else {}))" for ds
    unfolding vocab_set_eq by blast
  then show ?thesis by (simp only: u l assms(2))
qed

text \<open>
  Claim C8 as amended: a permutation of the transcripts of the corpus that keeps the
  sizes of the two partitions leaves the character set the same, hence also the set of
  outcomes the cell can have; any two mappings returned for the two orders have the
  same keys, the same size and the same indices for \<open>[UNK]\<close> and \<open>[PAD]\<close>.
\<close>

theorem transcript_order_keeps_outcomes:
  assumes "mset (train ds @ test ds) = mset (train ds' @ test ds')"
    and "length (train ds) = length (train ds')"
  shows "vocab_set ds = vocab_set ds' \<and>
         (build_vocabulary ds r \<longleftrightarrow> build_vocabulary ds' r) \<and>
         (build_vocabulary ds (Inr m) \<and> build_vocabulary ds' (Inr m') \<longrightarrow>
            set (map fst m) = set (map fst m') \<and> length m = length m' \<and>
            getitem m ''[UNK]'' = getitem m' ''[UNK]'' \<and>
            getitem m ''[PAD]'' = getitem m' ''[PAD]'')"
proof -
  have vs: "vocab_set ds = vocab_set ds'"
    using assms by (rule vocab_set_permutation)
  then have same: "build_vocabulary ds r \<longleftrightarrow> build_vocabulary ds' r"
    by (simp add: build_vocabulary_iff)
  have "set (map fst m) = set (map fst m') \<and> length m = length m' \<and>
        getitem m ''[UNK]'' = getitem m' ''[UNK]'' \<and> getitem m ''[PAD]'' = getitem m' ''[PAD]''"
    if b: "build_vocabulary ds (Inr m)" and b': "build_vocabulary ds' (Inr m')"
  proof -
    have "length m = length m'"
      using length_of_result [OF b] length_of_result [OF b'] vs by simp
    moreover have "set (map fst m) = set (map fst m')"
      using keys_of_result(1) [OF b] keys_of_result(1) [OF b'] vs by simp
    ultimately show ?thesis
      using reserved_indices [OF b] reserved_indices [OF b'] by simp
  qed
  with vs same show ?thesis by blast
qed

text \<open>
  Witness for C8: a permutation that moves transcripts between the partitions.
\<close>

theorem transcript_order_keeps_outcomes_witness:
  "mset (train \<lparr>train = [''a b'', ''c''], test = [''a'']\<rparr> @ test \<lparr>train = [''a b'', ''c''], test = [''a'']\<rparr>) =
     mset (train \<lparr>train = [''a'', ''a b''], test = [''c'']\<rparr> @ test \<lparr>train = [''a'', ''a b''], test = [''c'']\<rparr>) \<and>
   length (train \<lparr>train = [''a b'', ''c''], test = [''a'']\<rparr>) =
     length (train \<lparr>train = [''a'', ''a b''], test = [''c'']\<rparr>) \<and>
   vocab_set \<lparr>train = [''a b'', ''c''], test = [''a'']\<rparr> =
     vocab_set \<lparr>train = [''a'', ''a b''], test = [''c'']\<rparr> \<and>
   build_vocabulary \<lparr>train = [''a b'', ''c''], test = [''a'']\<rparr>
     (Inr [(''a'', 0), (''b'', 2), (''c'', 3), (''|'', 1), (''[UNK]'', 4), (''[PAD]'', 5)]) \<and>
   build_vocabulary \<lparr>train = [''a'', ''a b''], test = [''c'']\<rparr>
     (Inr [(''a'', 0), (''b'', 2), (''c'', 3), (''|'', 1), (''[UNK]'', 4), (''[PAD]'', 5)])"
proof -
  have p: "mset (train \<lparr>train = [''a b'', ''c''], test = [''a'']\<rparr> @ test \<lparr>train = [''a b'', ''c''], test = [''a'']\<rparr>) =
     mset (train \<lparr>train = [''a'', ''a b''], test = [''c'']\<rparr> @ test \<lparr>train = [''a'', ''a b''], test = [''c'']\<rparr>)"
    by (simp add: add.commute add.left_commute)
  have l: "length (train \<lparr>train = [''a b'', ''c''], test = [''a'']\<rparr>) =
     length (train \<lparr>train = [''a'', ''a b''], test = [''c'']\<rparr>)"
    by simp
  have v1: "vocab_dict ''a bc'' =
      Inr [(''a'', 0), (''b'', 2), (''c'', 3), (''|'', 1), (''[UNK]'', 4), (''[PAD]'', 5)]"
    by (simp add: eval_vocab_dict)
  have s1: "set ''a bc'' = vocab_set \<lparr>train = [''a b'', ''c''], test = [''a'']\<rparr>"
    by (auto simp: eval_vocab_set)
  have b1: "build_vocabulary \<lparr>train = [''a b'', ''c''], test = [''a'']\<rparr>
     (Inr [(''a'', 0), (''b'', 2), (''c'', 3), (''|'', 1), (''[UNK]'', 4), (''[PAD]'', 5)])"
    using build_vocabulary.run [of "''a bc''" "\<lparr>train = [''a b'', ''c''], test = [''a'']\<rparr>"] v1 s1
    by simp
  from transcript_order_keeps_outcomes [OF p l,
      of "Inr [(''a'', 0), (''b'', 2), (''c'', 3), (''|'', 1), (''[UNK]'', 4), (''[PAD]'', 5)]"] p l b1
  show ?thesis by blast
qed







end
